theory Spec2Isabelle
  imports Complex_Main
begin

section \<open>JavaScript string primitives used by the layout code\<close>

text \<open>
  A JavaScript string is a sequence of UTF-16 code units; \<open>length\<close>, \<open>substring\<close>,
  \<open>indexOf\<close> and \<open>lastIndexOf\<close> all count code units. The model uses \<open>string\<close>, one
  \<open>char\<close> per code unit. Indices handed to the primitives are integers: they can be
  negative, and the primitives clamp them as ECMAScript prescribes.
\<close>

abbreviation SPACE :: char where "SPACE \<equiv> CHR '' ''"
abbreviation NEWLINE :: char where "NEWLINE \<equiv> CHR 0x0A"
abbreviation COMMA :: char where "COMMA \<equiv> CHR '',''"
abbreviation BANG :: char where "BANG \<equiv> CHR ''!''"

text \<open>An index argument is clamped to \<open>[0, length]\<close>.\<close>

definition clampIndex :: "string \<Rightarrow> int \<Rightarrow> nat" where
  "clampIndex s i = (if i < 0 then 0 else min (nat i) (length s))"

text \<open>\<open>s.substring(a, b)\<close>: both ends clamped, swapped when \<open>a > b\<close>.\<close>

definition substring :: "string \<Rightarrow> int \<Rightarrow> int \<Rightarrow> string" where
  "substring s a b =
     (let a' = clampIndex s a; b' = clampIndex s b;
          lo = min a' b'; hi = max a' b'
      in take (hi - lo) (drop lo s))"

text \<open>\<open>s.substring(a)\<close>: from the clamped index to the end.\<close>

definition substringFrom :: "string \<Rightarrow> int \<Rightarrow> string" where
  "substringFrom s a = drop (clampIndex s a) s"

text \<open>Index of the first occurrence of a character, \<open>-1\<close> when there is none.\<close>

fun firstIndex :: "char \<Rightarrow> string \<Rightarrow> int" where
  "firstIndex c [] = -1"
| "firstIndex c (x # xs) =
     (if x = c then 0
      else (let r = firstIndex c xs in if r < 0 then -1 else r + 1))"

text \<open>\<open>s.indexOf(c, from)\<close>: the search starts at the clamped position.\<close>

definition indexOf :: "string \<Rightarrow> char \<Rightarrow> int \<Rightarrow> int" where
  "indexOf s c from =
     (let k = clampIndex s from; r = firstIndex c (drop k s)
      in if r < 0 then -1 else int k + r)"

text \<open>\<open>s.lastIndexOf(c)\<close>: index of the last occurrence, \<open>-1\<close> when there is none.\<close>

fun lastIndexOf :: "string \<Rightarrow> char \<Rightarrow> int" where
  "lastIndexOf [] c = -1"
| "lastIndexOf (x # xs) c =
     (let r = lastIndexOf xs c
      in if 0 \<le> r then r + 1 else if x = c then 0 else -1)"

text \<open>\<open>s.split(sep)\<close> for a one-character separator: never the empty array.\<close>

fun split :: "string \<Rightarrow> char \<Rightarrow> string list" where
  "split [] sep = [[]]"
| "split (c # cs) sep =
     (if c = sep then [] # split cs sep
      else (case split cs sep of
              [] \<Rightarrow> [[c]]
            | w # ws \<Rightarrow> (c # w) # ws))"

text \<open>\<open>lines.join(sep)\<close>; the empty array joins to the empty string.\<close>

fun join :: "string list \<Rightarrow> char \<Rightarrow> string" where
  "join [] sep = []"
| "join [l] sep = l"
| "join (l # ls) sep = l @ sep # join ls sep"

definition endsWith :: "string \<Rightarrow> char \<Rightarrow> bool" where
  "endsWith s c = (s \<noteq> [] \<and> last s = c)"

section \<open>The line wrapper: \<open>splitLines\<close>\<close>

text \<open>
  The body of the \<open>while\<close> loop of \<open>splitLines\<close> (and of the same loop in the
  \<open>/review\<close> route) computes a break position \<open>pos\<close> and the index \<open>i\<close> at which the
  rest of the line starts.
\<close>

definition breakPos :: "int \<Rightarrow> string \<Rightarrow> int" where
  "breakPos maxLineLength line =
     (let pos = lastIndexOf (substring line 0 maxLineLength) SPACE
      in if pos \<le> 0 then maxLineLength else pos)"

definition nextStart :: "int \<Rightarrow> string \<Rightarrow> int" where
  "nextStart maxLineLength line =
     (let pos = breakPos maxLineLength line;
          i = indexOf line SPACE pos + 1
      in if i < pos \<or> i > pos + maxLineLength then pos else i)"

text \<open>
  The \<open>while\<close> loop on one newline-delimited segment, with the array \<open>lines\<close> it pushes
  to. Nothing in the source bounds the number of iterations, so the loop is a partial
  function: \<open>None\<close> is the loop that never ends (in the running program it pushes lines
  until memory is exhausted).
\<close>

partial_function (option) splitLoop :: "int \<Rightarrow> string \<Rightarrow> string list \<Rightarrow> string list option" where
  "splitLoop maxLineLength line lines =
     (if int (length line) > maxLineLength then
        splitLoop maxLineLength
          (substringFrom line (nextStart maxLineLength line))
          (lines @ [substring line 0 (breakPos maxLineLength line)])
      else Some (lines @ [line]))"

declare splitLoop.simps [code]

text \<open>The \<open>forEach\<close> over the segments, threading the array of lines.\<close>

fun splitSegments :: "int \<Rightarrow> string list \<Rightarrow> string list \<Rightarrow> string list option" where
  "splitSegments maxLineLength [] lines = Some lines"
| "splitSegments maxLineLength (line # rest) lines =
     (case splitLoop maxLineLength line lines of
        None \<Rightarrow> None
      | Some lines' \<Rightarrow> splitSegments maxLineLength rest lines')"

definition splitLines :: "string \<Rightarrow> int \<Rightarrow> string list option" where
  "splitLines text maxLineLength = splitSegments maxLineLength (split text NEWLINE) []"

section \<open>The host: canvas measurement, collation, lower-casing\<close>

text \<open>
  \<open>context.measureText(text)\<close> of the canvas library answers for the font that is set
  on the context. The code only ever sets \<open>bold <size>px Outfit\<close>, so the font is its
  size. The library is an external collaborator: the model takes its measurement as a
  function of the requested size and the text, the same answer for the same question.
  Widths and bounding boxes are JavaScript numbers, modelled as reals; rounding of
  floating-point arithmetic is not modelled. The host also supplies \<open>toLowerCase\<close> and
  the equality of two characters under the collator of the Levenshtein package.

  \<open>createCanvas(width, height)\<close> of the canvas library either returns a canvas or throws;
  which sizes it accepts is the library's business, so the host says whether the call
  returns (\<open>True\<close>) or throws (\<open>False\<close>). The measuring and drawing calls on a canvas that
  was created are taken to return.
\<close>

record TextMetrics =
  width :: real
  actualBoundingBoxAscent :: real
  actualBoundingBoxDescent :: real

record host =
  measureText :: "int \<Rightarrow> string \<Rightarrow> TextMetrics"
  toLowerCase :: "string \<Rightarrow> string"
  collatorEqual :: "char \<Rightarrow> char \<Rightarrow> bool"
  createCanvas :: "int \<Rightarrow> real \<Rightarrow> bool"

text \<open>The adjustable variables of \<open>index.js\<close>, read from the environment.\<close>

record config =
  canvasWidth :: int
  maxFontSize :: int
  baseFontColor :: string
  specialWordFontColor :: string
  specialWordList :: "string list"

text \<open>\<open>ratio = 1275 / 362\<close> and \<open>canvasHeight = canvasWidth / ratio\<close>.\<close>

definition canvasHeight :: "config \<Rightarrow> real" where
  "canvasHeight cfg = real_of_int (canvasWidth cfg) / (1275 / 362)"





section \<open>The font-size solver: \<open>computeFontSize\<close>\<close>

text \<open>The test of the \<open>if\<close> inside the loop, at font size \<open>fontSize\<close>.\<close>

definition overflows :: "host \<Rightarrow> config \<Rightarrow> string \<Rightarrow> int \<Rightarrow> bool" where
  "overflows h cfg text fontSize =
     (let tm = measureText h fontSize text
      in width tm > real_of_int (canvasWidth cfg) \<or>
         actualBoundingBoxDescent tm + actualBoundingBoxAscent tm > canvasHeight cfg)"

text \<open>
  The \<open>do ... while (dichotomy.max - dichotomy.min > 1)\<close> loop; the two arguments are
  \<open>dichotomy.min\<close> and \<open>dichotomy.max\<close>. The body runs before the test. (The measurement
  the source takes before the loop, at the default font, is overwritten in the first
  iteration and plays no part.)
\<close>

function fontSizeLoop :: "host \<Rightarrow> config \<Rightarrow> string \<Rightarrow> int \<Rightarrow> int \<Rightarrow> int" where
  "fontSizeLoop h cfg text dmin dmax =
     (let newFontSize = (dmin + dmax) div 2;
          dmin' = (if overflows h cfg text newFontSize then dmin else newFontSize);
          dmax' = (if overflows h cfg text newFontSize then newFontSize else dmax)
      in if dmax' - dmin' > 1 then fontSizeLoop h cfg text dmin' dmax' else dmin')"
  by pat_completeness auto
termination
  by (relation "measure (\<lambda>(h, cfg, text, dmin, dmax). nat (dmax - dmin))")
    (auto split: if_splits)

definition computeFontSize :: "host \<Rightarrow> config \<Rightarrow> string \<Rightarrow> int" where
  "computeFontSize h cfg text = fontSizeLoop h cfg text 0 (maxFontSize cfg)"

text \<open>
  The font-size loop of the \<open>/review\<close> route: it starts at \<open>maxFontSize\<close> and steps
  down by one while the text overflows. Nothing bounds it from below.
\<close>

partial_function (option) reviewFontSizeLoop :: "host \<Rightarrow> config \<Rightarrow> string \<Rightarrow> int \<Rightarrow> int option" where
  "reviewFontSizeLoop h cfg text fontSize =
     (if overflows h cfg text fontSize then reviewFontSizeLoop h cfg text (fontSize - 1)
      else Some fontSize)"

declare reviewFontSizeLoop.simps [code]

section \<open>Line height and longest line\<close>

text \<open>The table \<open>ratios\<close>: an absent key reads as \<open>undefined\<close>.\<close>

definition ratios :: "nat \<Rightarrow> real option" where
  "ratios n =
     (if n = 2 then Some 1.275
      else if n = 3 then Some 1.167
      else if n = 4 then Some 1.12
      else if n = 5 then Some 1.095
      else None)"

definition computeLineHeight :: "string list \<Rightarrow> TextMetrics \<Rightarrow> real" where
  "computeLineHeight lines textDetails =
     (let multiplier = (case ratios (length lines) of
                          Some r \<Rightarrow> r
                        | None \<Rightarrow> 0.7 / (real (length lines) powr 1.5) + 1)
      in ((actualBoundingBoxDescent textDetails + actualBoundingBoxAscent textDetails)
            / real (length lines)) * multiplier)"

definition getLongestLineLength :: "string list \<Rightarrow> int" where
  "getLongestLineLength lines =
     foldl (\<lambda>mx line. if int (length line) > mx then int (length line) else mx) 0 lines"

section \<open>The layout optimizer of the \<open>/image\<close> route\<close>

text \<open>The object \<open>dichotomy\<close> of the route: \<open>min\<close>, \<open>max\<close>, \<open>maxFontSize\<close>, \<open>lines\<close>.\<close>

record dichotomy =
  min_d :: int
  max_d :: int
  maxFontSize_d :: int
  lines_d :: "string list"

text \<open>
  One run of the loop body. It is \<open>None\<close> when the call of \<open>splitLines\<close> in it never
  returns.
\<close>

definition dichotomyStep :: "host \<Rightarrow> config \<Rightarrow> string \<Rightarrow> dichotomy \<Rightarrow> dichotomy option" where
  "dichotomyStep h cfg text d =
     (let newMaxLineLength = (min_d d + max_d d) div 2
      in case splitLines text newMaxLineLength of
           None \<Rightarrow> None
         | Some splittedLines \<Rightarrow>
             (let newFontSize = computeFontSize h cfg (join splittedLines NEWLINE)
              in if newFontSize > maxFontSize_d d then
                   (let d' = d\<lparr>maxFontSize_d := newFontSize, lines_d := splittedLines\<rparr>;
                        textDetails = measureText h (maxFontSize_d d') (join splittedLines NEWLINE);
                        lineHeight = computeLineHeight splittedLines textDetails
                    in if canvasHeight cfg - actualBoundingBoxDescent textDetails
                            + actualBoundingBoxAscent textDetails > lineHeight * 2
                       then Some (d'\<lparr>max_d := newMaxLineLength\<rparr>)
                       else Some (d'\<lparr>min_d := newMaxLineLength\<rparr>))
                 else Some (d\<lparr>max_d := newMaxLineLength\<rparr>)))"

text \<open>
  The \<open>do ... while (dichotomy.max - dichotomy.min > 1)\<close> loop of the route. It ends
  because every further round strictly narrows the interval; it is \<open>None\<close> when a round
  of it never returns.
\<close>

function dichotomyLoop :: "host \<Rightarrow> config \<Rightarrow> string \<Rightarrow> dichotomy \<Rightarrow> dichotomy option" where
  "dichotomyLoop h cfg text d =
     (case dichotomyStep h cfg text d of
        None \<Rightarrow> None
      | Some d' \<Rightarrow>
          if max_d d' - min_d d' > 1 then dichotomyLoop h cfg text d' else Some d')"
  by pat_completeness auto
termination
proof (relation "measure (\<lambda>(h, cfg, text, d). nat (max_d d - min_d d))")
  fix h cfg t d d'
  assume "dichotomyStep h cfg t d = Some d'" and "1 < max_d d' - min_d d'"
  then have "nat (max_d d' - min_d d') < nat (max_d d - min_d d)"
    by (auto simp: dichotomyStep_def Let_def split: option.splits if_splits)
  then show "((h, cfg, t, d'), (h, cfg, t, d))
      \<in> measure (\<lambda>(h, cfg, text, d). nat (max_d d - min_d d))"
    by simp
qed simp

text \<open>
  The start of the route. The seed font size is \<open>computeFontSize(lines)\<close>, called with the
  array of unwrapped lines; \<open>measureText\<close> converts its argument to a string, and an
  array converts to its elements joined by commas.
\<close>

definition imageLayout :: "host \<Rightarrow> config \<Rightarrow> string \<Rightarrow> dichotomy option" where
  "imageLayout h cfg text =
     (let lines = split text NEWLINE
      in dichotomyLoop h cfg text
           \<lparr>min_d = 0,
            max_d = getLongestLineLength lines,
            maxFontSize_d = computeFontSize h cfg (join lines COMMA),
            lines_d = lines\<rparr>)"

section \<open>The colour of a word: \<open>getColor\<close>\<close>

text \<open>
  Modelled from the spec: \<open>levenshtein.get(a, b, { useCollator: true })\<close> belongs to the
  package fast-levenshtein, which is not part of the sources. It is the Levenshtein edit
  distance (insertion, deletion, substitution, each of cost one) in which two characters
  count as equal when the collator compares them equal.
\<close>

fun levenshtein :: "(char \<Rightarrow> char \<Rightarrow> bool) \<Rightarrow> string \<Rightarrow> string \<Rightarrow> nat" where
  "levenshtein eq [] ys = length ys"
| "levenshtein eq xs [] = length xs"
| "levenshtein eq (x # xs) (y # ys) =
     min (min (levenshtein eq xs (y # ys) + 1) (levenshtein eq (x # xs) ys + 1))
         (levenshtein eq xs ys + (if eq x y then 0 else 1))"

text \<open>The predicate handed to \<open>specialWordList.some\<close>.\<close>

definition matchesSpecialWord :: "host \<Rightarrow> string \<Rightarrow> string \<Rightarrow> bool" where
  "matchesSpecialWord h word specialWord =
     (if length specialWord > 3
      then levenshtein (collatorEqual h) word specialWord \<le> 2
      else toLowerCase h word = toLowerCase h specialWord)"

text \<open>
  \<open>!word\<close> holds for \<open>null\<close>, \<open>undefined\<close> and the empty string: the argument is an
  optional string, \<open>None\<close> standing for \<open>null\<close>.
\<close>

definition getColor :: "host \<Rightarrow> config \<Rightarrow> string option \<Rightarrow> string" where
  "getColor h cfg word =
     (case word of
        None \<Rightarrow> baseFontColor cfg
      | Some w \<Rightarrow>
          if w = [] then baseFontColor cfg
          else if list_ex (matchesSpecialWord h w) (specialWordList cfg)
               then specialWordFontColor cfg
               else baseFontColor cfg)"

section \<open>Drawing: \<open>drawWord\<close> and the render phase\<close>

text \<open>
  The drawing context: the size of the font set on it, \<open>textAlign\<close>, \<open>fillStyle\<close>, and
  the drawing calls made so far, each with the fill style in force when it was made.
\<close>

datatype drawOp =
    FillText string real real string
  | DrawPngReplaceEmoji string real real int int string

record context2d =
  font :: int
  textAlign :: string
  fillStyle :: string
  drawn :: "drawOp list"

text \<open>\<open>drawWord\<close> of the \<open>/image\<close> route; it returns the advance and the context.\<close>

function drawWord :: "host \<Rightarrow> config \<Rightarrow> context2d \<Rightarrow> string \<Rightarrow> real \<Rightarrow> real \<Rightarrow> int
    \<Rightarrow> real \<times> context2d" where
  "drawWord h cfg context word x y fontSize =
     (if length word > 1 \<and> endsWith word BANG then
        (let word' = substring word 0 (int (length word) - 1);
             (textSize, context') = drawWord h cfg context word' x y fontSize;
             (bangSize, context'') = drawWord h cfg context' ''!'' (x + textSize) y fontSize
         in (textSize + bangSize, context''))
      else
        (let context' = context\<lparr>textAlign := ''left'',
                                 fillStyle := getColor h cfg (Some word)\<rparr>;
             context'' = context'\<lparr>drawn := drawn context' @
                           [DrawPngReplaceEmoji word x y fontSize fontSize (fillStyle context')]\<rparr>
         in (width (measureText h (font context'') (word @ '' '')), context'')))"
  by pat_completeness auto
termination
  by (relation "measure (\<lambda>(h, cfg, context, word, x, y, fontSize). length word)")
    (auto simp: substring_def clampIndex_def Let_def)

text \<open>\<open>drawWord\<close> of the \<open>/review\<close> route: the same, drawing with \<open>fillText\<close>.\<close>

function drawWordA :: "host \<Rightarrow> config \<Rightarrow> context2d \<Rightarrow> string \<Rightarrow> real \<Rightarrow> real
    \<Rightarrow> real \<times> context2d" where
  "drawWordA h cfg context word x y =
     (if length word > 1 \<and> endsWith word BANG then
        (let word' = substring word 0 (int (length word) - 1);
             (textSize, context') = drawWordA h cfg context word' x y;
             (bangSize, context'') = drawWordA h cfg context' ''!'' (x + textSize) y
         in (textSize + bangSize, context''))
      else
        (let context' = context\<lparr>textAlign := ''left'',
                                 fillStyle := getColor h cfg (Some word)\<rparr>;
             context'' = context'\<lparr>drawn := drawn context' @
                           [FillText word x y (fillStyle context')]\<rparr>
         in (width (measureText h (font context'') (word @ '' '')), context'')))"
  by pat_completeness auto
termination
  by (relation "measure (\<lambda>(h, cfg, context, word, x, y). length word)")
    (auto simp: substring_def clampIndex_def Let_def)

text \<open>The two nested \<open>forEach\<close> loops of the render phase: words of a line, then lines.\<close>

fun drawWords :: "host \<Rightarrow> config \<Rightarrow> string list \<Rightarrow> real \<Rightarrow> int \<Rightarrow> real \<times> context2d
    \<Rightarrow> real \<times> context2d" where
  "drawWords h cfg [] y fontSize (x, context) = (x, context)"
| "drawWords h cfg (word # words) y fontSize (x, context) =
     (let (advance, context') = drawWord h cfg context word x y fontSize
      in drawWords h cfg words y fontSize (x + advance, context'))"

fun drawLines :: "host \<Rightarrow> config \<Rightarrow> string list \<Rightarrow> real \<Rightarrow> int \<Rightarrow> real \<times> context2d
    \<Rightarrow> real \<times> context2d" where
  "drawLines h cfg [] lineHeight fontSize (y, context) = (y, context)"
| "drawLines h cfg (line # lines) lineHeight fontSize (y, context) =
     (let x = (real_of_int (canvasWidth cfg) - width (measureText h (font context) line)) / 2;
          (x', context') = drawWords h cfg (split line SPACE) y fontSize (x, context)
      in drawLines h cfg lines lineHeight fontSize (y + lineHeight, context'))"

text \<open>The answer of the route: the PNG of the canvas, or the 500 of the \<open>catch\<close>.\<close>

datatype response = Png "drawOp list" | InternalServerError

text \<open>The render phase of the route, from the layout the search returned.\<close>

definition renderLayout :: "host \<Rightarrow> config \<Rightarrow> dichotomy \<Rightarrow> response" where
  "renderLayout h cfg d =
     (let context = \<lparr>font = maxFontSize_d d, textAlign = ''start'',
                     fillStyle = ''#000000'', drawn = []\<rparr>;
          lines = lines_d d;
          textDetails = measureText h (font context) (join lines NEWLINE);
          lineHeight = computeLineHeight lines textDetails;
          y = (canvasHeight cfg - actualBoundingBoxDescent textDetails
                 + actualBoundingBoxAscent textDetails) / 2;
          (y', context') = drawLines h cfg lines lineHeight (maxFontSize_d d) (y, context)
      in Png (drawn context'))"

text \<open>
  The handler of \<open>/image/:text\<close>: everything runs inside \<open>try\<close>, and the \<open>catch\<close> answers
  every exception with the 500. Two things throw. \<open>createCanvas\<close>, the first call of the
  handler, throws when the host refuses the size (\<open>computeFontSize\<close> calls it again with
  the same arguments, so it returns there when it returned here). And a loop of
  \<open>splitLines\<close> that never returns pushes a line in every round: the engine ends it with
  a \<open>RangeError\<close> once the array can grow no more. Lists of the model have no bound, so
  that loop is \<open>None\<close>, and the \<open>catch\<close> is the case \<open>None\<close> of the layout.
\<close>

definition imageRoute :: "host \<Rightarrow> config \<Rightarrow> string \<Rightarrow> response" where
  "imageRoute h cfg text =
     (if \<not> createCanvas h (canvasWidth cfg) (canvasHeight cfg) then InternalServerError
      else case imageLayout h cfg text of
             None \<Rightarrow> InternalServerError
           | Some d \<Rightarrow> renderLayout h cfg d)"



function wordDraws :: "string \<Rightarrow> string list" where
  "wordDraws word =
     (if length word > 1 \<and> endsWith word BANG then wordDraws (butlast word) @ [''!'']
      else [word])"
  by pat_completeness auto
termination
  by (relation "measure length") auto


section \<open>Well-behaved segments\<close>

text \<open>
  A segment is well behaved for a width when no two spaces are adjacent in it, it does
  not start with a space, and its longest run of non-space characters is shorter than
  the width.
\<close>

fun noAdjacentSpaces :: "string \<Rightarrow> bool" where
  "noAdjacentSpaces (a # b # cs) = (\<not> (a = SPACE \<and> b = SPACE) \<and> noAdjacentSpaces (b # cs))"
| "noAdjacentSpaces cs = True"

definition startsWithSpace :: "string \<Rightarrow> bool" where
  "startsWithSpace s = (case s of [] \<Rightarrow> False | c # cs \<Rightarrow> c = SPACE)"

fun longestRun :: "string \<Rightarrow> nat" where
  "longestRun [] = 0"
| "longestRun (c # cs) =
     (if c = SPACE then longestRun cs
      else max (length (takeWhile (\<lambda>x. x \<noteq> SPACE) (c # cs))) (longestRun cs))"

definition wellBehaved :: "int \<Rightarrow> string \<Rightarrow> bool" where
  "wellBehaved L seg =
     (noAdjacentSpaces seg \<and> \<not> startsWithSpace seg \<and> int (longestRun seg) < L)"

section \<open>A sample host and configuration\<close>

text \<open>
  A fixed-pitch measurement: at font size \<open>s\<close> every character is \<open>s\<close> pixels wide and
  every line \<open>s\<close> pixels high; canvases of at least one pixel each way are created. The
  configuration holds the defaults of the \<open>/image\<close> route.
\<close>

definition boxMeasure :: "int \<Rightarrow> string \<Rightarrow> TextMetrics" where
  "boxMeasure fontSize text =
     (let lines = split text NEWLINE
      in \<lparr>width = real_of_int (fontSize * getLongestLineLength lines),
          actualBoundingBoxAscent = real_of_int (fontSize * int (length lines)),
          actualBoundingBoxDescent = 0\<rparr>)"

definition asciiLower :: "char \<Rightarrow> char" where
  "asciiLower c =
     (let n = (of_char c :: nat) in if 65 \<le> n \<and> n \<le> 90 then char_of (n + 32) else c)"

definition sampleHost :: host where
  "sampleHost = \<lparr>measureText = boxMeasure, toLowerCase = map asciiLower, collatorEqual = (=),
                  createCanvas = (\<lambda>w e. 1 \<le> w \<and> 1 \<le> e)\<rparr>"

definition defaultConfig :: config where
  "defaultConfig = \<lparr>canvasWidth = 1275, maxFontSize = 200, baseFontColor = ''#fff'',
                     specialWordFontColor = ''#FB7417'', specialWordList = []\<rparr>"




definition specialConfig :: config where
  "specialConfig = defaultConfig\<lparr>specialWordList := [''ok'', ''wonderful'']\<rparr>"

definition sampleContext :: context2d where
  "sampleContext = \<lparr>font = 10, textAlign = ''start'', fillStyle = ''#000000'', drawn = []\<rparr>"

section \<open>The invariant of the layout loop\<close>

text \<open>The best layout known is empty-handed (size 0 or less) or fits the canvas.\<close>

definition fitsIfPositive :: "host \<Rightarrow> config \<Rightarrow> dichotomy \<Rightarrow> bool" where
  "fitsIfPositive h cfg d =
     (0 < maxFontSize_d d \<longrightarrow> \<not> overflows h cfg (join (lines_d d) NEWLINE) (maxFontSize_d d))"

section \<open>Simplifier setup\<close>

text \<open>
  The recursive equations of the loops are unfolded by hand, one round at a time.
\<close>

declare fontSizeLoop.simps [simp del] dichotomyLoop.simps [simp del]
  drawWord.simps [simp del] drawWordA.simps [simp del] levenshtein.simps [simp del]
  wordDraws.simps [simp del]

section \<open>Facts about the string primitives and the loop body\<close>

lemma lastIndexOf_bounds: "-1 \<le> lastIndexOf s c \<and> lastIndexOf s c < int (length s)"
  by (induction s) (auto simp: Let_def)

lemma lastIndexOf_hit: "0 \<le> lastIndexOf s c \<Longrightarrow> s ! nat (lastIndexOf s c) = c"
proof (induction s)
  case Nil
  then show ?case by simp
next
  case (Cons x xs)
  show ?case
  proof (cases "0 \<le> lastIndexOf xs c")
    case True
    then have "nat (lastIndexOf xs c + 1) = Suc (nat (lastIndexOf xs c))" by simp
    with True Cons.IH show ?thesis by (simp add: Let_def)
  next
    case False
    with Cons.prems show ?thesis by (simp add: Let_def split: if_splits)
  qed
qed

lemma lastIndexOf_found: "c \<in> set s \<Longrightarrow> 0 \<le> lastIndexOf s c"
  by (induction s) (auto simp: Let_def)

lemma lastIndexOf_pos: "c \<in> set (tl s) \<Longrightarrow> 1 \<le> lastIndexOf s c"
  using lastIndexOf_found by (cases s) (auto simp: Let_def)

lemma firstIndex_bounds: "-1 \<le> firstIndex c s \<and> firstIndex c s < int (length s)"
  by (induction s) (auto simp: Let_def)

lemma firstIndex_hd: "s \<noteq> [] \<Longrightarrow> hd s = c \<Longrightarrow> firstIndex c s = 0"
  by (cases s) auto

lemma substring_prefix: "0 \<le> b \<Longrightarrow> substring s 0 b = take (nat b) s"
  by (auto simp: substring_def clampIndex_def Let_def min_def)

lemma breakPos_range:
  assumes "1 \<le> L"
  shows "1 \<le> breakPos L line \<and> breakPos L line \<le> L"
proof -
  have "lastIndexOf (substring line 0 L) SPACE < int (length (substring line 0 L))"
    using lastIndexOf_bounds by blast
  moreover have "int (length (substring line 0 L)) \<le> L"
    using assms by (simp add: substring_prefix)
  ultimately show ?thesis using assms by (auto simp: breakPos_def Let_def)
qed

lemma nextStart_ge: "0 \<le> L \<Longrightarrow> breakPos L line \<le> nextStart L line"
  by (auto simp: nextStart_def Let_def)

lemma nextStart_range:
  assumes "1 \<le> L"
  shows "1 \<le> nextStart L line"
  using breakPos_range [OF assms, of line] nextStart_ge [of L line] assms by linarith

lemma splitLoop_shrinks:
  assumes "1 \<le> L" "L < int (length line)"
  shows "length (substringFrom line (nextStart L line)) < length line"
proof -
  have "1 \<le> nextStart L line" using nextStart_range [OF assms(1)] .
  then have "0 < min (nat (nextStart L line)) (length line)" using assms by auto
  then show ?thesis using assms by (auto simp: substringFrom_def clampIndex_def)
qed

lemma splitLoop_rule:
  assumes L: "1 \<le> L"
    and base: "\<And>line. int (length line) \<le> L \<Longrightarrow> P line [line]"
    and step: "\<And>line ls. L < int (length line) \<Longrightarrow>
                 P (substringFrom line (nextStart L line)) ls \<Longrightarrow>
                 P line (substring line 0 (breakPos L line) # ls)"
  shows "\<exists>ls. (\<forall>acc. splitLoop L line acc = Some (acc @ ls)) \<and> P line ls"
proof (induction "length line" arbitrary: line rule: less_induct)
  case less
  show ?case
  proof (cases "L < int (length line)")
    case True
    let ?rest = "substringFrom line (nextStart L line)"
    let ?piece = "substring line 0 (breakPos L line)"
    from splitLoop_shrinks [OF L True] less
    obtain ls where ls: "\<forall>acc. splitLoop L ?rest acc = Some (acc @ ls)"
      and P: "P ?rest ls" by blast
    have "splitLoop L line acc = Some (acc @ ?piece # ls)" for acc
    proof -
      have "splitLoop L line acc = splitLoop L ?rest (acc @ [?piece])"
        using True by (subst splitLoop.simps) simp
      with ls show ?thesis by simp
    qed
    with step [OF True P] show ?thesis by blast
  next
    case False
    have "splitLoop L line acc = Some (acc @ [line])" for acc
      using False by (subst splitLoop.simps) simp
    with base [of line] False show ?thesis by auto
  qed
qed

lemma splitSegments_rule:
  assumes L: "1 \<le> L"
    and base: "\<And>line. int (length line) \<le> L \<Longrightarrow> P line [line]"
    and step: "\<And>line ls. L < int (length line) \<Longrightarrow>
                 P (substringFrom line (nextStart L line)) ls \<Longrightarrow>
                 P line (substring line 0 (breakPos L line) # ls)"
  shows "\<exists>lss. splitSegments L segs acc = Some (acc @ concat lss) \<and>
           list_all2 (\<lambda>seg ls. splitLoop L seg [] = Some ls \<and> P seg ls) segs lss"
proof (induction segs arbitrary: acc)
  case Nil
  show ?case by simp
next
  case (Cons seg segs)
  from splitLoop_rule [of L P seg, OF L base step]
  obtain ls where ls: "\<forall>acc. splitLoop L seg acc = Some (acc @ ls)" and P: "P seg ls"
    by blast
  from Cons [of "acc @ ls"]
  obtain lss where lss: "splitSegments L segs (acc @ ls) = Some ((acc @ ls) @ concat lss)"
    and all: "list_all2 (\<lambda>seg ls. splitLoop L seg [] = Some ls \<and> P seg ls) segs lss"
    by blast
  from ls have "splitLoop L seg [] = Some ls" by simp
  with ls lss all P
  have "splitSegments L (seg # segs) acc = Some (acc @ concat (ls # lss)) \<and>
        list_all2 (\<lambda>seg ls. splitLoop L seg [] = Some ls \<and> P seg ls) (seg # segs) (ls # lss)"
    by simp
  then show ?case by blast
qed

lemma substring_subset: "set (substring s a b) \<subseteq> set s"
  by (auto simp: substring_def Let_def dest: in_set_takeD in_set_dropD)

lemma substringFrom_subset: "set (substringFrom s a) \<subseteq> set s"
  by (auto simp: substringFrom_def dest: in_set_dropD)

lemma length_piece:
  assumes "1 \<le> L"
  shows "int (length (substring line 0 (breakPos L line))) \<le> L"
  using breakPos_range [OF assms, of line] by (auto simp: substring_prefix min_def)

lemma split_nonempty: "split s sep \<noteq> []"
  by (induction s) (auto split: list.splits)

lemma split_no_sep: "w \<in> set (split s sep) \<Longrightarrow> sep \<notin> set w"
  by (induction s arbitrary: w) (auto split: list.splits if_splits)

lemma split_plain: "sep \<notin> set l \<Longrightarrow> split l sep = [l]"
  by (induction l) auto

lemma split_append: "sep \<notin> set l \<Longrightarrow> split (l @ sep # r) sep = l # split r sep"
  by (induction l) (auto split: list.splits)

lemma split_join:
  "ls \<noteq> [] \<Longrightarrow> \<forall>l\<in>set ls. sep \<notin> set l \<Longrightarrow> split (join ls sep) sep = ls"
proof (induction ls sep rule: join.induct)
  case (1 sep)
  then show ?case by simp
next
  case (2 l sep)
  then show ?case by (simp add: split_plain)
next
  case (3 l v va sep)
  then show ?case by (simp add: split_append)
qed

lemma splitSegments_short:
  "\<forall>l\<in>set ls. int (length l) \<le> L \<Longrightarrow> splitSegments L ls acc = Some (acc @ ls)"
proof (induction ls arbitrary: acc)
  case Nil
  show ?case by simp
next
  case (Cons l ls)
  then have "splitLoop L l acc = Some (acc @ [l])"
    by (subst splitLoop.simps) simp
  with Cons show ?case by simp
qed

section \<open>Wrap widths that are not positive\<close>

lemma indexOf_lower: "-1 \<le> indexOf s c p"
  using firstIndex_bounds [of c "drop (clampIndex s p) s"]
  by (auto simp: indexOf_def Let_def)

lemma breakPos_nonpositive: "L \<le> 0 \<Longrightarrow> breakPos L line = L"
  by (simp add: breakPos_def substring_def clampIndex_def)

lemma nextStart_nonpositive:
  assumes "L \<le> 0"
  shows "nextStart L line \<le> 0"
  using assms indexOf_lower [of line SPACE L]
  by (auto simp: nextStart_def breakPos_nonpositive Let_def)

lemma splitLoop_rest_nonpositive: "L \<le> 0 \<Longrightarrow> substringFrom line (nextStart L line) = line"
  using nextStart_nonpositive [of L line] by (auto simp: substringFrom_def clampIndex_def)

lemma splitLoop_never_returns:
  assumes "splitLoop L line lines = Some r"
  shows "0 < L \<or> line = []"
proof (rule splitLoop.raw_induct [where P = "\<lambda>L line lines r. 0 < L \<or> line = []", OF _ assms])
  fix loop :: "int \<Rightarrow> string \<Rightarrow> string list \<Rightarrow> string list option"
    and L line lines r
  assume IH: "\<And>L line lines r. loop L line lines = Some r \<Longrightarrow> 0 < L \<or> line = []"
    and eq: "(if L < int (length line)
         then loop L (substringFrom line (nextStart L line))
                (lines @ [substring line 0 (breakPos L line)])
         else Some (lines @ [line])) = Some r"
  show "0 < L \<or> line = []"
  proof (rule ccontr)
    assume "\<not> (0 < L \<or> line = [])"
    then have L: "L \<le> 0" and ne: "line \<noteq> []" by simp_all
    then have "L < int (length line)" by (cases line) auto
    with eq L have "loop L line (lines @ [substring line 0 (breakPos L line)]) = Some r"
      by (simp add: splitLoop_rest_nonpositive)
    from IH [OF this] L ne show False by simp
  qed
qed

lemma splitLoop_diverges: "L \<le> 0 \<Longrightarrow> line \<noteq> [] \<Longrightarrow> splitLoop L line lines = None"
  using splitLoop_never_returns [of L line lines] by (cases "splitLoop L line lines") auto

section \<open>Well-behaved segments under the loop body\<close>

lemma takeWhile_window:
  "n \<le> length s \<Longrightarrow> \<forall>x\<in>set (take n s). P x \<Longrightarrow> n \<le> length (takeWhile P s)"
proof (induction s arbitrary: n)
  case Nil
  then show ?case by simp
next
  case (Cons a s)
  then show ?case by (cases n) auto
qed

lemma longestRun_takeWhile: "length (takeWhile (\<lambda>x. x \<noteq> SPACE) s) \<le> longestRun s"
  by (cases s) auto

lemma longestRun_tl: "longestRun (tl s) \<le> longestRun s"
  by (cases s) auto

lemma longestRun_drop: "longestRun (drop k s) \<le> longestRun s"
proof (induction k)
  case 0
  show ?case by simp
next
  case (Suc k)
  have "drop (Suc k) s = tl (drop k s)" by (simp add: drop_Suc tl_drop)
  with longestRun_tl [of "drop k s"] Suc show ?case by simp
qed

lemma run_window:
  assumes "longestRun s < n" "n \<le> length s"
  shows "SPACE \<in> set (take n s)"
proof (rule ccontr)
  assume "SPACE \<notin> set (take n s)"
  then have "\<forall>x\<in>set (take n s). x \<noteq> SPACE" by auto
  from takeWhile_window [OF assms(2) this] longestRun_takeWhile [of s] assms(1)
  show False by simp
qed

lemma noAdjacentSpaces_tl: "noAdjacentSpaces s \<Longrightarrow> noAdjacentSpaces (tl s)"
  by (induction s rule: noAdjacentSpaces.induct) auto

lemma noAdjacentSpaces_drop: "noAdjacentSpaces s \<Longrightarrow> noAdjacentSpaces (drop k s)"
proof (induction k)
  case 0
  then show ?case by simp
next
  case (Suc k)
  have "drop (Suc k) s = tl (drop k s)" by (simp add: drop_Suc tl_drop)
  with Suc show ?case by (simp add: noAdjacentSpaces_tl)
qed

lemma noAdjacentSpaces_nth:
  "noAdjacentSpaces s \<Longrightarrow> Suc i < length s \<Longrightarrow> s ! i = SPACE \<Longrightarrow> s ! Suc i \<noteq> SPACE"
proof (induction s arbitrary: i rule: noAdjacentSpaces.induct)
  case (1 a b cs)
  then show ?case by (cases i) auto
qed auto

lemma join_Cons: "ls \<noteq> [] \<Longrightarrow> join (l # ls) sep = l @ sep # join ls sep"
  by (cases ls) auto

text \<open>The loop body on a well-behaved line: the break is at a space, which is skipped.\<close>

lemma wellBehaved_step:
  assumes L: "1 \<le> L" and long: "L < int (length line)" and wb: "wellBehaved L line"
  shows "\<exists>p. 1 \<le> p \<and> p < length line \<and> line ! p = SPACE \<and>
           substring line 0 (breakPos L line) = take p line \<and>
           substringFrom line (nextStart L line) = drop (Suc p) line"
proof -
  let ?n = "nat L"
  let ?w = "take ?n line"
  from wb have run: "longestRun line < ?n" and hd: "\<not> startsWithSpace line"
    using L by (auto simp: wellBehaved_def)
  from long have n: "?n \<le> length line" by simp
  from long L have ne: "line \<noteq> []" by auto
  have "SPACE \<in> set ?w" using run_window [OF run n] .
  moreover from hd ne L have "hd ?w \<noteq> SPACE"
    by (cases line) (auto simp: startsWithSpace_def take_Cons split: nat.splits)
  ultimately have "SPACE \<in> set (tl ?w)" by (cases ?w) auto
  then have pos: "1 \<le> lastIndexOf ?w SPACE" by (rule lastIndexOf_pos)
  define p where "p = nat (lastIndexOf ?w SPACE)"
  from pos have p1: "1 \<le> p" and pint: "lastIndexOf ?w SPACE = int p" by (simp_all add: p_def)
  from lastIndexOf_bounds [of ?w SPACE] pos have pw: "p < length ?w"
    unfolding p_def by linarith
  then have pn: "p < ?n" and pl: "p < length line" by simp_all
  from lastIndexOf_hit [of ?w SPACE] pos pw have at: "line ! p = SPACE" by (simp add: p_def)
  have bp: "breakPos L line = int p"
    using pos L pint by (simp add: breakPos_def substring_prefix)
  have "hd (drop p line) = SPACE" using at pl by (simp add: hd_drop_conv_nth)
  moreover have "drop p line \<noteq> []" using pl by simp
  ultimately have "firstIndex SPACE (drop p line) = 0" by (simp add: firstIndex_hd)
  then have io: "indexOf line SPACE (int p) = int p"
    using pl by (simp add: indexOf_def clampIndex_def Let_def min_def)
  have ns: "nextStart L line = int p + 1"
    using bp io L by (simp add: nextStart_def Let_def)
  have "substring line 0 (breakPos L line) = take p line"
    using bp by (simp add: substring_prefix)
  moreover have "substringFrom line (nextStart L line) = drop (Suc p) line"
    using ns pl by (auto simp: substringFrom_def clampIndex_def min_def nat_add_distrib)
  ultimately show ?thesis using p1 pl at by blast
qed

lemma wellBehaved_rest:
  assumes wb: "wellBehaved L line" and p: "p < length line" "line ! p = SPACE"
  shows "wellBehaved L (drop (Suc p) line)"
proof -
  from wb have na: "noAdjacentSpaces line" and run: "int (longestRun line) < L"
    by (simp_all add: wellBehaved_def)
  have "\<not> startsWithSpace (drop (Suc p) line)"
  proof (cases "Suc p < length line")
    case True
    with noAdjacentSpaces_nth [OF na True p(2)] show ?thesis
      by (simp add: startsWithSpace_def hd_drop_conv_nth Cons_nth_drop_Suc [symmetric])
  next
    case False
    then show ?thesis by (simp add: startsWithSpace_def)
  qed
  moreover have "noAdjacentSpaces (drop (Suc p) line)"
    using na by (rule noAdjacentSpaces_drop)
  moreover have "int (longestRun (drop (Suc p) line)) < L"
    using longestRun_drop [of "Suc p" line] run by linarith
  ultimately show ?thesis by (simp add: wellBehaved_def)
qed

section \<open>The claims about the line wrapper\<close>

text \<open>
  Claim C4. For every text and every \<open>maxLineLength\<close> \<open>L \<ge> 1\<close>, \<open>splitLines\<close> returns and
  every line it emits has at most \<open>L\<close> characters; and whenever the loop meets a line
  longer than \<open>L\<close> whose first \<open>L\<close> characters hold no space after the first position
  (the forced hard break), the line emitted there is the first \<open>L\<close> characters, of length
  exactly \<open>L\<close>.
\<close>

theorem splitLines_line_length:
  assumes "1 \<le> L"
  shows "(\<exists>ls. splitLines text L = Some ls \<and> (\<forall>l\<in>set ls. int (length l) \<le> L)) \<and>
         (\<forall>line lines. L < int (length line) \<and> lastIndexOf (substring line 0 L) SPACE \<le> 0 \<longrightarrow>
            int (length (substring line 0 L)) = L \<and>
            (\<exists>rest. splitLoop L line lines = Some (lines @ substring line 0 L # rest)))"
proof (intro conjI allI impI)
  let ?P = "\<lambda>(line::string) ls. \<forall>l\<in>set ls. int (length l) \<le> L"
  have "\<exists>lss. splitSegments L (split text NEWLINE) [] = Some ([] @ concat lss) \<and>
           list_all2 (\<lambda>seg ls. splitLoop L seg [] = Some ls \<and> ?P seg ls) (split text NEWLINE) lss"
    by (rule splitSegments_rule [OF assms]) (auto simp: length_piece [OF assms])
  then obtain lss where r: "splitLines text L = Some (concat lss)"
    and a: "list_all2 (\<lambda>seg ls. splitLoop L seg [] = Some ls \<and> ?P seg ls) (split text NEWLINE) lss"
    by (auto simp: splitLines_def)
  have "\<forall>l\<in>set (concat lss). int (length l) \<le> L"
  proof
    fix l assume "l \<in> set (concat lss)"
    then obtain ls where ls: "ls \<in> set lss" and l: "l \<in> set ls" by auto
    from ls obtain k where "k < length lss" "lss ! k = ls" by (auto simp: in_set_conv_nth)
    with a have "?P (split text NEWLINE ! k) ls" by (auto simp: list_all2_conv_all_nth)
    with l show "int (length l) \<le> L" by blast
  qed
  with r show "\<exists>ls. splitLines text L = Some ls \<and> (\<forall>l\<in>set ls. int (length l) \<le> L)" by blast
next
  fix line lines
  assume h: "L < int (length line) \<and> lastIndexOf (substring line 0 L) SPACE \<le> 0"
  then have bp: "breakPos L line = L" by (simp add: breakPos_def)
  from h assms show "int (length (substring line 0 L)) = L"
    by (auto simp: substring_prefix)
  from splitLoop_rule [of L "\<lambda>_ _. True" "substringFrom line (nextStart L line)", OF assms]
  obtain ls where "\<forall>acc. splitLoop L (substringFrom line (nextStart L line)) acc = Some (acc @ ls)"
    by auto
  moreover have "splitLoop L line lines =
      splitLoop L (substringFrom line (nextStart L line)) (lines @ [substring line 0 L])"
    using h bp by (subst splitLoop.simps) simp
  ultimately show "\<exists>rest. splitLoop L line lines = Some (lines @ substring line 0 L # rest)"
    by simp
qed

theorem splitLines_line_length_witness:
  "(1::int) \<le> 3 \<and> splitLines ''a bcde'' 3 = Some [''a'', ''bcd'', ''e''] \<and>
   list_all (\<lambda>l. int (length l) \<le> 3) [''a'', ''bcd'', ''e''] \<and>
   (3::int) < int (length ''bcde'') \<and> lastIndexOf (substring ''bcde'' 0 3) SPACE \<le> 0 \<and>
   int (length (substring ''bcde'' 0 3)) = 3 \<and>
   (\<exists>rest. splitLoop 3 ''bcde'' [''a''] = Some ([''a''] @ substring ''bcde'' 0 3 # rest))"
proof -
  have h: "(1::int) \<le> 3" by simp
  have e: "splitLines ''a bcde'' 3 = Some [''a'', ''bcd'', ''e'']" by code_simp
  have g: "(3::int) < int (length ''bcde'') \<and> lastIndexOf (substring ''bcde'' 0 3) SPACE \<le> 0"
    by code_simp
  note t = splitLines_line_length [OF h, of "''a bcde''"]
  from t e have "list_all (\<lambda>l. int (length l) \<le> 3) [''a'', ''bcd'', ''e'']"
    unfolding list_all_iff by fastforce
  moreover from t g have "int (length (substring ''bcde'' 0 3)) = 3 \<and>
     (\<exists>rest. splitLoop 3 ''bcde'' [''a''] = Some ([''a''] @ substring ''bcde'' 0 3 # rest))"
    by blast
  ultimately show ?thesis using h e g by blast
qed

text \<open>
  Claim C9. Wrapping is idempotent: for every text and every \<open>L \<ge> 1\<close>, \<open>splitLines\<close>
  returns some lines, and wrapping their newline-join again with the same \<open>L\<close> returns
  the same lines.
\<close>

theorem splitLines_idempotent:
  assumes "1 \<le> L"
  shows "\<exists>ls. splitLines text L = Some ls \<and> splitLines (join ls NEWLINE) L = Some ls"
proof -
  let ?P = "\<lambda>(line::string) ls. ls \<noteq> [] \<and>
     (NEWLINE \<notin> set line \<longrightarrow> (\<forall>l\<in>set ls. NEWLINE \<notin> set l \<and> int (length l) \<le> L))"
  have "\<exists>lss. splitSegments L (split text NEWLINE) [] = Some ([] @ concat lss) \<and>
           list_all2 (\<lambda>seg ls. splitLoop L seg [] = Some ls \<and> ?P seg ls) (split text NEWLINE) lss"
  proof (rule splitSegments_rule [OF assms])
    fix line :: string
    assume "int (length line) \<le> L"
    then show "?P line [line]" by simp
  next
    fix line :: string and ls
    assume "L < int (length line)" and "?P (substringFrom line (nextStart L line)) ls"
    then show "?P line (substring line 0 (breakPos L line) # ls)"
      using substring_subset [of line 0 "breakPos L line"]
        substringFrom_subset [of line "nextStart L line"] length_piece [OF assms, of line]
      by auto
  qed
  then obtain lss where r: "splitLines text L = Some (concat lss)"
    and a: "list_all2 (\<lambda>seg ls. splitLoop L seg [] = Some ls \<and> ?P seg ls) (split text NEWLINE) lss"
    by (auto simp: splitLines_def)
  have each: "ls \<noteq> [] \<and> (\<forall>l\<in>set ls. NEWLINE \<notin> set l \<and> int (length l) \<le> L)"
    if "ls \<in> set lss" for ls
  proof -
    from that obtain k where k: "k < length lss" "lss ! k = ls" by (auto simp: in_set_conv_nth)
    with a have "k < length (split text NEWLINE)" and "?P (split text NEWLINE ! k) ls"
      by (auto simp: list_all2_conv_all_nth)
    moreover from this have "NEWLINE \<notin> set (split text NEWLINE ! k)"
      using split_no_sep [of "split text NEWLINE ! k" "text" NEWLINE] by simp
    ultimately show ?thesis by blast
  qed
  from a have "length lss = length (split text NEWLINE)" by (simp add: list_all2_lengthD)
  with split_nonempty [of "text" NEWLINE] have "lss \<noteq> []" by auto
  with each have ne: "concat lss \<noteq> []" by (cases lss) auto
  from each have ok: "\<forall>l\<in>set (concat lss). NEWLINE \<notin> set l \<and> int (length l) \<le> L" by auto
  have "split (join (concat lss) NEWLINE) NEWLINE = concat lss"
    using ne ok by (simp add: split_join)
  then have "splitLines (join (concat lss) NEWLINE) L = Some (concat lss)"
    using ok by (simp add: splitLines_def splitSegments_short)
  with r show ?thesis by blast
qed

theorem splitLines_idempotent_witness:
  "(1::int) \<le> 5 \<and> splitLines ''hello world'' 5 = Some [''hello'', ''world''] \<and>
   splitLines (join [''hello'', ''world''] NEWLINE) 5 = Some [''hello'', ''world'']"
proof -
  have h: "(1::int) \<le> 5" by simp
  have e: "splitLines ''hello world'' 5 = Some [''hello'', ''world'']" by code_simp
  from splitLines_idempotent [OF h, of "''hello world''"] e
  have "splitLines (join [''hello'', ''world''] NEWLINE) 5 = Some [''hello'', ''world'']"
    by auto
  with h e show ?thesis by blast
qed

text \<open>
  Claim C10. For every \<open>L \<ge> 1\<close> and every text all of whose newline-delimited segments
  are well behaved for \<open>L\<close>, the lines of \<open>splitLines\<close> are the concatenation, segment
  by segment, of the lines the loop produces from each segment, and joining the lines of
  one segment with single spaces gives back exactly that segment.
\<close>

theorem splitLines_preserves_content:
  assumes L: "1 \<le> L" and wb: "\<forall>seg\<in>set (split text NEWLINE). wellBehaved L seg"
  shows "\<exists>lss. splitLines text L = Some (concat lss) \<and>
           list_all2 (\<lambda>seg ls. splitLoop L seg [] = Some ls \<and> join ls SPACE = seg)
             (split text NEWLINE) lss"
proof -
  let ?P = "\<lambda>line ls. ls \<noteq> [] \<and> (wellBehaved L line \<longrightarrow> join ls SPACE = line)"
  have "\<exists>lss. splitSegments L (split text NEWLINE) [] = Some ([] @ concat lss) \<and>
           list_all2 (\<lambda>seg ls. splitLoop L seg [] = Some ls \<and> ?P seg ls) (split text NEWLINE) lss"
  proof (rule splitSegments_rule [OF L])
    fix line :: string
    show "?P line [line]" by simp
  next
    fix line :: string and ls
    assume long: "L < int (length line)"
      and IH: "?P (substringFrom line (nextStart L line)) ls"
    show "?P line (substring line 0 (breakPos L line) # ls)"
    proof (intro conjI impI)
      assume w: "wellBehaved L line"
      from wellBehaved_step [OF L long w] obtain p where p: "p < length line" "line ! p = SPACE"
        and piece: "substring line 0 (breakPos L line) = take p line"
        and rest: "substringFrom line (nextStart L line) = drop (Suc p) line" by blast
      from wellBehaved_rest [OF w p] IH rest have "join ls SPACE = drop (Suc p) line" by simp
      moreover from IH have "ls \<noteq> []" by simp
      ultimately have "join (take p line # ls) SPACE = take p line @ SPACE # drop (Suc p) line"
        by (simp add: join_Cons)
      also have "\<dots> = line" using id_take_nth_drop [OF p(1)] p(2) by simp
      finally show "join (substring line 0 (breakPos L line) # ls) SPACE = line"
        using piece by simp
    qed simp
  qed
  then obtain lss where r: "splitLines text L = Some (concat lss)"
    and a: "list_all2 (\<lambda>seg ls. splitLoop L seg [] = Some ls \<and> ?P seg ls) (split text NEWLINE) lss"
    by (auto simp: splitLines_def)
  have "list_all2 (\<lambda>seg ls. splitLoop L seg [] = Some ls \<and> join ls SPACE = seg)
          (split text NEWLINE) lss"
    using a wb by (auto simp: list_all2_conv_all_nth)
  with r show ?thesis by blast
qed

theorem splitLines_preserves_content_witness:
  "(1::int) \<le> 5 \<and> list_all (wellBehaved 5) (split ''ab cd ef'' NEWLINE) \<and>
   splitLines ''ab cd ef'' 5 = Some [''ab'', ''cd ef''] \<and>
   splitLoop 5 ''ab cd ef'' [] = Some [''ab'', ''cd ef''] \<and>
   join [''ab'', ''cd ef''] SPACE = ''ab cd ef''"
proof -
  have h: "(1::int) \<le> 5" by simp
  have s: "split ''ab cd ef'' NEWLINE = [''ab cd ef'']" by code_simp
  have w: "wellBehaved 5 ''ab cd ef''" by code_simp
  then have wb: "\<forall>seg\<in>set (split ''ab cd ef'' NEWLINE). wellBehaved 5 seg"
    by (simp only: s) simp
  have e: "splitLoop 5 ''ab cd ef'' [] = Some [''ab'', ''cd ef'']" by code_simp
  have e2: "splitLines ''ab cd ef'' 5 = Some [''ab'', ''cd ef'']" by code_simp
  from splitLines_preserves_content [OF h wb] obtain lss where
    "list_all2 (\<lambda>seg ls. splitLoop 5 seg [] = Some ls \<and> join ls SPACE = seg)
       [''ab cd ef''] lss"
    unfolding s by blast
  then obtain ls where "splitLoop 5 ''ab cd ef'' [] = Some ls" "join ls SPACE = ''ab cd ef''"
    by (auto simp: list_all2_Cons1)
  with e have "join [''ab'', ''cd ef''] SPACE = ''ab cd ef''" by simp
  moreover from w s have "list_all (wellBehaved 5) (split ''ab cd ef'' NEWLINE)" by simp
  ultimately show ?thesis using h e e2 by blast
qed

section \<open>The claims about the font-size solver\<close>

text \<open>The solver never returns its upper bound: the bound itself is never measured.\<close>

lemma fontSizeLoop_below_max:
  "dmin < dmax \<Longrightarrow> fontSizeLoop h cfg text dmin dmax < dmax"
proof (induction h cfg "text" dmin dmax rule: fontSizeLoop.induct)
  case (1 h cfg txt' dmin dmax)
  let ?mid = "(dmin + dmax) div 2"
  show ?case
  proof (cases "overflows h cfg txt' ?mid")
    case True
    show ?thesis
    proof (cases "?mid - dmin > 1")
      case loop: True
      with True 1 have "fontSizeLoop h cfg txt' dmin ?mid < ?mid"
        by (simp add: Let_def)
      moreover have "?mid \<le> dmax" using 1(2) by linarith
      ultimately show ?thesis using True loop
        by (subst fontSizeLoop.simps) (simp add: Let_def)
    next
      case False
      with True 1(2) show ?thesis by (subst fontSizeLoop.simps) (simp add: Let_def)
    qed
  next
    case False
    show ?thesis
    proof (cases "dmax - ?mid > 1")
      case loop: True
      with False 1 have "fontSizeLoop h cfg txt' ?mid dmax < dmax"
        by (simp add: Let_def)
      then show ?thesis using False loop
        by (subst fontSizeLoop.simps) (simp add: Let_def)
    next
      case stop: False
      have "?mid < dmax" using 1(2) by linarith
      with False stop show ?thesis by (subst fontSizeLoop.simps) (simp add: Let_def)
    qed
  qed
qed

lemma fontSizeLoop_unfold:
  "fontSizeLoop h cfg text dmin dmax =
     (let newFontSize = (dmin + dmax) div 2 in
      if overflows h cfg text newFontSize
      then (if newFontSize - dmin > 1 then fontSizeLoop h cfg text dmin newFontSize else dmin)
      else (if dmax - newFontSize > 1 then fontSizeLoop h cfg text newFontSize dmax
            else newFontSize))"
  by (subst fontSizeLoop.simps) (simp add: Let_def)

text \<open>Without any assumption on the measurement: a result other than the lower bound
  was measured and fits.\<close>

lemma fontSizeLoop_fits:
  "fontSizeLoop h cfg text dmin dmax = dmin \<or>
   \<not> overflows h cfg text (fontSizeLoop h cfg text dmin dmax)"
proof (induction h cfg "text" dmin dmax rule: fontSizeLoop.induct)
  case (1 h cfg t dmin dmax)
  let ?mid = "(dmin + dmax) div 2"
  show ?case
  proof (cases "overflows h cfg t ?mid")
    case True
    show ?thesis
    proof (cases "?mid - dmin > 1")
      case loop: True
      with True 1 have "fontSizeLoop h cfg t dmin ?mid = dmin \<or>
          \<not> overflows h cfg t (fontSizeLoop h cfg t dmin ?mid)"
        by (simp add: Let_def)
      then show ?thesis using True loop
        by (subst (1 2) fontSizeLoop_unfold) (simp add: Let_def)
    next
      case False
      with True show ?thesis by (subst fontSizeLoop_unfold) (simp add: Let_def)
    qed
  next
    case False
    show ?thesis
    proof (cases "dmax - ?mid > 1")
      case loop: True
      with False 1 have "fontSizeLoop h cfg t ?mid dmax = ?mid \<or>
          \<not> overflows h cfg t (fontSizeLoop h cfg t ?mid dmax)"
        by (simp add: Let_def)
      then show ?thesis using False loop
        by (subst (1 2) fontSizeLoop_unfold) (auto simp: Let_def)
    next
      case stop: False
      with False show ?thesis by (subst (1 2) fontSizeLoop_unfold) (simp add: Let_def)
    qed
  qed
qed

lemma computeFontSize_fits:
  "0 < computeFontSize h cfg text \<Longrightarrow> \<not> overflows h cfg text (computeFontSize h cfg text)"
  using fontSizeLoop_fits [of h cfg "text" 0 "maxFontSize cfg"]
  by (auto simp: computeFontSize_def)

text \<open>With a measurement that is monotonic in the font size: everything strictly
  between the result and the upper bound overflows.\<close>

lemma fontSizeLoop_above:
  assumes mono: "\<And>a b. a \<le> b \<Longrightarrow> overflows h cfg text a \<Longrightarrow> overflows h cfg text b"
  shows "dmin < dmax \<Longrightarrow> fontSizeLoop h cfg text dmin dmax < s \<Longrightarrow> s < dmax \<Longrightarrow>
         overflows h cfg text s"
proof (induction "nat (dmax - dmin)" arbitrary: dmin dmax rule: less_induct)
  case less
  let ?mid = "(dmin + dmax) div 2"
  show ?case
  proof (cases "overflows h cfg text ?mid")
    case True
    show ?thesis
    proof (cases "?mid - dmin > 1")
      case loop: True
      have r: "fontSizeLoop h cfg text dmin dmax = fontSizeLoop h cfg text dmin ?mid"
        using True loop by (subst fontSizeLoop_unfold) (simp add: Let_def)
      show ?thesis
      proof (cases "s < ?mid")
        case small: True
        have "nat (?mid - dmin) < nat (dmax - dmin)" using less.prems(1) loop by linarith
        moreover have "dmin < ?mid" using loop by linarith
        moreover have "fontSizeLoop h cfg text dmin ?mid < s" using less.prems(2) r by simp
        ultimately show ?thesis using small by (rule less.hyps)
      next
        case False
        then show ?thesis using mono [of ?mid s] True by simp
      qed
    next
      case False
      have r: "fontSizeLoop h cfg text dmin dmax = dmin"
        using True False by (subst fontSizeLoop_unfold) (simp add: Let_def)
      with less.prems(2) False have "?mid \<le> s" by linarith
      then show ?thesis using mono [of ?mid s] True by simp
    qed
  next
    case False
    show ?thesis
    proof (cases "dmax - ?mid > 1")
      case loop: True
      have r: "fontSizeLoop h cfg text dmin dmax = fontSizeLoop h cfg text ?mid dmax"
        using False loop by (subst fontSizeLoop_unfold) (simp add: Let_def)
      have "nat (dmax - ?mid) < nat (dmax - dmin)" using less.prems(1) loop by linarith
      moreover have "?mid < dmax" using loop by linarith
      moreover have "fontSizeLoop h cfg text ?mid dmax < s" using less.prems(2) r by simp
      ultimately show ?thesis using less.prems(3) by (rule less.hyps)
    next
      case stop: False
      have r: "fontSizeLoop h cfg text dmin dmax = ?mid"
        using False stop by (subst fontSizeLoop_unfold) (simp add: Let_def)
      with less.prems(2,3) stop show ?thesis by linarith
    qed
  qed
qed

text \<open>
  Hence, for a measurement monotonic in the font size at which the text fits at size 0,
  the result is the largest fitting size below \<open>maxFontSize\<close>; \<open>maxFontSize\<close> itself is
  left out.
\<close>

lemma computeFontSize_largest_below_max:
  assumes mono: "\<And>a b. a \<le> b \<Longrightarrow> overflows h cfg text a \<Longrightarrow> overflows h cfg text b"
    and pos: "1 \<le> maxFontSize cfg" and zero: "\<not> overflows h cfg text 0"
  shows "0 \<le> computeFontSize h cfg text \<and> computeFontSize h cfg text < maxFontSize cfg \<and>
         \<not> overflows h cfg text (computeFontSize h cfg text) \<and>
         (\<forall>s. computeFontSize h cfg text < s \<and> s < maxFontSize cfg \<longrightarrow> overflows h cfg text s)"
proof -
  let ?r = "computeFontSize h cfg text"
  have fit: "\<not> overflows h cfg text ?r"
    using fontSizeLoop_fits [of h cfg "text" 0 "maxFontSize cfg"] zero
    by (auto simp: computeFontSize_def)
  have lt: "?r < maxFontSize cfg"
    using pos fontSizeLoop_below_max [of 0 "maxFontSize cfg" h cfg "text"]
    by (simp add: computeFontSize_def)
  have above: "overflows h cfg text s" if "?r < s" "s < maxFontSize cfg" for s
    using fontSizeLoop_above [of h cfg "text" 0 "maxFontSize cfg" s, OF mono] that pos
    by (simp add: computeFontSize_def)
  have "0 \<le> ?r"
  proof (rule ccontr)
    assume "\<not> 0 \<le> ?r"
    then have "?r < 0" by simp
    with above [of 0] pos zero show False by simp
  qed
  with fit lt above show ?thesis by blast
qed

text \<open>
  Claim C1 says that \<open>computeFontSize\<close> returns the largest size in
  \<open>[0, maxFontSize]\<close> at which the text fits, and \<open>maxFontSize\<close> for the empty text. With
  the defaults (\<open>maxFontSize = 200\<close>) and the fixed-pitch measurement, the empty text fits
  at 200, and \<open>computeFontSize\<close> returns 199; the step-down loop of the \<open>/review\<close> route
  returns 200 on the same input.
\<close>

theorem computeFontSize_misses_maxFontSize:
  "computeFontSize sampleHost defaultConfig '''' = 199 \<and>
   \<not> overflows sampleHost defaultConfig '''' 200 \<and>
   maxFontSize defaultConfig = 200 \<and>
   reviewFontSizeLoop sampleHost defaultConfig '''' (maxFontSize defaultConfig) = Some 200"
  by code_simp

section \<open>The claims about the layout of the \<open>/image\<close> route\<close>

text \<open>
  Claim C3 says that the layout computation ends for every text. For the text \<open>a\<close> the
  longest line has one character, the first candidate wrap width is
  \<open>floor((0 + 1) / 2) = 0\<close>, and \<open>splitLines\<close> with that width never returns: the layout
  does not return, whatever the host and the configuration.
\<close>

theorem imageLayout_single_char_diverges: "imageLayout h cfg ''a'' = None"
proof -
  have "splitLines ''a'' 0 = None"
    by (simp add: splitLines_def splitLoop_diverges)
  then have "dichotomyStep h cfg ''a'' \<lparr>min_d = 0, max_d = 1, maxFontSize_d = f, lines_d = ls\<rparr> = None"
    for f ls
    by (simp add: dichotomyStep_def)
  then show ?thesis
    by (simp add: imageLayout_def getLongestLineLength_def dichotomyLoop.simps)
qed

text \<open>
  Every candidate the loop adopts was solved for its own newline-joined lines, so the
  loop keeps the invariant; only the seed can break it.
\<close>

lemma dichotomyStep_fits:
  assumes "dichotomyStep h cfg text d = Some d'" and "fitsIfPositive h cfg d"
  shows "fitsIfPositive h cfg d'"
proof -
  from assms(1) obtain ls where ls: "splitLines text ((min_d d + max_d d) div 2) = Some ls"
    by (auto simp: dichotomyStep_def Let_def split: option.splits)
  let ?n = "computeFontSize h cfg (join ls NEWLINE)"
  show ?thesis
  proof (cases "?n > maxFontSize_d d")
    case True
    with assms(1) ls have "maxFontSize_d d' = ?n \<and> lines_d d' = ls"
      by (auto simp: dichotomyStep_def Let_def split: if_splits)
    then show ?thesis
      using computeFontSize_fits [of h cfg "join ls NEWLINE"] by (simp add: fitsIfPositive_def)
  next
    case False
    with assms(1) ls have "maxFontSize_d d' = maxFontSize_d d \<and> lines_d d' = lines_d d"
      by (auto simp: dichotomyStep_def Let_def split: if_splits)
    with assms(2) show ?thesis by (simp add: fitsIfPositive_def)
  qed
qed

lemma dichotomyLoop_fits:
  "dichotomyLoop h cfg text d = Some r \<Longrightarrow> fitsIfPositive h cfg d \<Longrightarrow> fitsIfPositive h cfg r"
proof (induction h cfg "text" d rule: dichotomyLoop.induct)
  case (1 h cfg t d)
  from "1.prems"(1) obtain d' where s: "dichotomyStep h cfg t d = Some d'"
    by (subst (asm) dichotomyLoop.simps) (auto split: option.splits)
  have f: "fitsIfPositive h cfg d'" using dichotomyStep_fits [OF s "1.prems"(2)] .
  show ?case
  proof (cases "max_d d' - min_d d' > 1")
    case True
    with "1.prems"(1) s have "dichotomyLoop h cfg t d' = Some r"
      by (subst (asm) dichotomyLoop.simps) simp
    from "1.IH" [OF s True this f] show ?thesis .
  next
    case False
    with "1.prems"(1) s have "r = d'"
      by (subst (asm) dichotomyLoop.simps) simp
    with f show ?thesis by simp
  qed
qed

text \<open>
  For a text of one line the seed is solved for the text itself, and every returned
  layout with a positive font size fits the canvas.
\<close>

lemma imageLayout_fits_single_line:
  assumes "NEWLINE \<notin> set text" and "imageLayout h cfg text = Some d"
    and "0 < maxFontSize_d d"
  shows "\<not> overflows h cfg (join (lines_d d) NEWLINE) (maxFontSize_d d)"
proof -
  have s: "split text NEWLINE = [text]" using assms(1) by (rule split_plain)
  let ?d0 = "\<lparr>min_d = 0, max_d = getLongestLineLength [text],
              maxFontSize_d = computeFontSize h cfg text, lines_d = [text]\<rparr>"
  have "fitsIfPositive h cfg ?d0"
    using computeFontSize_fits [of h cfg "text"] by (simp add: fitsIfPositive_def)
  moreover have "dichotomyLoop h cfg text ?d0 = Some d"
    using assms(2) by (simp add: imageLayout_def s Let_def)
  ultimately have "fitsIfPositive h cfg d" by (rule dichotomyLoop_fits [rotated])
  with assms(3) show ?thesis by (simp add: fitsIfPositive_def)
qed

text \<open>
  Claim C2 says that a layout returned with a positive font size fits the canvas. For
  the four lines \<open>ab\<close>, \<open>cd\<close>, \<open>ef\<close>, \<open>gh\<close> the seed is solved for the comma-joined
  text \<open>ab,cd,ef,gh\<close> (one line, size 115) where the newline-joined text would give 90;
  no candidate of the loop beats 115, so the route returns the four lines at size 115,
  at which they overflow the canvas.
\<close>

theorem imageLayout_seed_overflows:
  "map_option (\<lambda>d. (maxFontSize_d d, lines_d d))
     (imageLayout sampleHost defaultConfig
        (''ab'' @ [NEWLINE] @ ''cd'' @ [NEWLINE] @ ''ef'' @ [NEWLINE] @ ''gh''))
     = Some (115, [''ab'', ''cd'', ''ef'', ''gh'']) \<and>
   overflows sampleHost defaultConfig (join [''ab'', ''cd'', ''ef'', ''gh''] NEWLINE) 115 \<and>
   computeFontSize sampleHost defaultConfig (join [''ab'', ''cd'', ''ef'', ''gh''] COMMA) = 115 \<and>
   computeFontSize sampleHost defaultConfig (join [''ab'', ''cd'', ''ef'', ''gh''] NEWLINE) = 90"
  by code_simp

section \<open>The claims about drawing\<close>

lemma substring_butlast: "substring word 0 (int (length word) - 1) = butlast word"
proof -
  have "nat (int (length word) - 1) = length word - 1" by linarith
  then show ?thesis
    by (auto simp: substring_def clampIndex_def Let_def butlast_conv_take min_def)
qed

lemma drawWord_plain_eq:
  assumes "\<not> (length word > 1 \<and> endsWith word BANG)"
  shows "drawWord h cfg context word x y fontSize =
     (width (measureText h (font context) (word @ '' '')),
      context\<lparr>textAlign := ''left'', fillStyle := getColor h cfg (Some word),
        drawn := drawn context @
          [DrawPngReplaceEmoji word x y fontSize fontSize (getColor h cfg (Some word))]\<rparr>)"
  by (subst drawWord.simps) (simp only: assms if_False Let_def, simp)

lemma drawWordA_plain_eq:
  assumes "\<not> (length word > 1 \<and> endsWith word BANG)"
  shows "drawWordA h cfg context word x y =
     (width (measureText h (font context) (word @ '' '')),
      context\<lparr>textAlign := ''left'', fillStyle := getColor h cfg (Some word),
        drawn := drawn context @ [FillText word x y (getColor h cfg (Some word))]\<rparr>)"
  by (subst drawWordA.simps) (simp only: assms if_False Let_def, simp)

lemma drawWord_bang:
  "drawWord h cfg context ''!'' x y fontSize =
     (width (measureText h (font context) ''! ''),
      context\<lparr>textAlign := ''left'', fillStyle := getColor h cfg (Some ''!''),
        drawn := drawn context @
          [DrawPngReplaceEmoji ''!'' x y fontSize fontSize (getColor h cfg (Some ''!''))]\<rparr>)"
  by (simp add: drawWord_plain_eq)

lemma drawWordA_bang:
  "drawWordA h cfg context ''!'' x y =
     (width (measureText h (font context) ''! ''),
      context\<lparr>textAlign := ''left'', fillStyle := getColor h cfg (Some ''!''),
        drawn := drawn context @ [FillText ''!'' x y (getColor h cfg (Some ''!''))]\<rparr>)"
  by (simp add: drawWordA_plain_eq)

lemma drawWord_split_eq:
  assumes "length word > 1" and "endsWith word BANG"
  shows "drawWord h cfg context word x y fontSize =
           (let (textSize, context') = drawWord h cfg context (butlast word) x y fontSize
            in (textSize + width (measureText h (font context') ''! ''),
                context'\<lparr>textAlign := ''left'', fillStyle := getColor h cfg (Some ''!''),
                  drawn := drawn context' @
                    [DrawPngReplaceEmoji ''!'' (x + textSize) y fontSize fontSize
                       (getColor h cfg (Some ''!''))]\<rparr>))"
proof -
  have c: "(length word > 1 \<and> endsWith word BANG) = True" using assms by simp
  show ?thesis
    by (subst drawWord.simps)
      (simp only: c if_True Let_def substring_butlast drawWord_bang split_beta fst_conv snd_conv)
qed

lemma drawWordA_split_eq:
  assumes "length word > 1" and "endsWith word BANG"
  shows "drawWordA h cfg context word x y =
           (let (textSize, context') = drawWordA h cfg context (butlast word) x y
            in (textSize + width (measureText h (font context') ''! ''),
                context'\<lparr>textAlign := ''left'', fillStyle := getColor h cfg (Some ''!''),
                  drawn := drawn context' @
                    [FillText ''!'' (x + textSize) y (getColor h cfg (Some ''!''))]\<rparr>))"
proof -
  have c: "(length word > 1 \<and> endsWith word BANG) = True" using assms by simp
  show ?thesis
    by (subst drawWordA.simps)
      (simp only: c if_True Let_def substring_butlast drawWordA_bang split_beta fst_conv snd_conv)
qed

lemma drawWord_font: "font (snd (drawWord h cfg context word x y fontSize)) = font context"
proof (induction "length word" arbitrary: word "context" x rule: less_induct)
  case less
  show ?case
  proof (cases "length word > 1 \<and> endsWith word BANG")
    case True
    then have "length (butlast word) < length word" by (cases word) auto
    from less [OF this] True show ?thesis
      by (simp add: drawWord_split_eq split_beta)
  next
    case False
    show ?thesis by (simp add: drawWord_plain_eq [OF False])
  qed
qed

lemma drawWordA_font: "font (snd (drawWordA h cfg context word x y)) = font context"
proof (induction "length word" arbitrary: word "context" x rule: less_induct)
  case less
  show ?case
  proof (cases "length word > 1 \<and> endsWith word BANG")
    case True
    then have "length (butlast word) < length word" by (cases word) auto
    from less [OF this] True show ?thesis
      by (simp add: drawWordA_split_eq split_beta)
  next
    case False
    show ?thesis by (simp add: drawWordA_plain_eq [OF False])
  qed
qed

text \<open>
  Claim C7, as the code has it: for every word longer than one character that ends in
  \<open>!\<close>, \<open>drawWord\<close> (of either route) draws the word without its last character at \<open>x\<close>
  (itself split again if it still ends in \<open>!\<close>), then \<open>!\<close> at \<open>x\<close> plus the advance
  returned for that prefix, and returns the sum of the prefix's advance and the measured
  width of \<open>!\<close> followed by a space. When the prefix is not split again, this is the
  measured width of the prefix followed by a space plus that of \<open>!\<close> followed by a
  space.
\<close>

theorem drawWord_exclamation:
  assumes "length word > 1" and "endsWith word BANG"
  shows "drawWord h cfg context word x y fontSize =
           (let (textSize, context') = drawWord h cfg context (butlast word) x y fontSize
            in (textSize + width (measureText h (font context) ''! ''),
                context'\<lparr>textAlign := ''left'', fillStyle := getColor h cfg (Some ''!''),
                  drawn := drawn context' @
                    [DrawPngReplaceEmoji ''!'' (x + textSize) y fontSize fontSize
                       (getColor h cfg (Some ''!''))]\<rparr>)) \<and>
         drawWordA h cfg context word x y =
           (let (textSize, context') = drawWordA h cfg context (butlast word) x y
            in (textSize + width (measureText h (font context) ''! ''),
                context'\<lparr>textAlign := ''left'', fillStyle := getColor h cfg (Some ''!''),
                  drawn := drawn context' @
                    [FillText ''!'' (x + textSize) y (getColor h cfg (Some ''!''))]\<rparr>)) \<and>
         (\<not> (length (butlast word) > 1 \<and> endsWith (butlast word) BANG) \<longrightarrow>
            fst (drawWord h cfg context word x y fontSize) =
              width (measureText h (font context) (butlast word @ '' ''))
                + width (measureText h (font context) ''! '') \<and>
            fst (drawWordA h cfg context word x y) =
              width (measureText h (font context) (butlast word @ '' ''))
                + width (measureText h (font context) ''! ''))"
proof -
  have fB: "font (snd (drawWord h cfg context (butlast word) x y fontSize)) = font context"
    by (rule drawWord_font)
  have fA: "font (snd (drawWordA h cfg context (butlast word) x y)) = font context"
    by (rule drawWordA_font)
  have B: "drawWord h cfg context word x y fontSize =
           (let (textSize, context') = drawWord h cfg context (butlast word) x y fontSize
            in (textSize + width (measureText h (font context) ''! ''),
                context'\<lparr>textAlign := ''left'', fillStyle := getColor h cfg (Some ''!''),
                  drawn := drawn context' @
                    [DrawPngReplaceEmoji ''!'' (x + textSize) y fontSize fontSize
                       (getColor h cfg (Some ''!''))]\<rparr>))"
    using fB by (simp add: drawWord_split_eq [OF assms] split_beta)
  have A: "drawWordA h cfg context word x y =
           (let (textSize, context') = drawWordA h cfg context (butlast word) x y
            in (textSize + width (measureText h (font context) ''! ''),
                context'\<lparr>textAlign := ''left'', fillStyle := getColor h cfg (Some ''!''),
                  drawn := drawn context' @
                    [FillText ''!'' (x + textSize) y (getColor h cfg (Some ''!''))]\<rparr>))"
    using fA by (simp add: drawWordA_split_eq [OF assms] split_beta)
  have C: "fst (drawWord h cfg context word x y fontSize) =
              width (measureText h (font context) (butlast word @ '' ''))
                + width (measureText h (font context) ''! '')"
    if "\<not> (length (butlast word) > 1 \<and> endsWith (butlast word) BANG)"
    by (subst B) (simp add: drawWord_plain_eq [OF that] split_beta)
  have D: "fst (drawWordA h cfg context word x y) =
              width (measureText h (font context) (butlast word @ '' ''))
                + width (measureText h (font context) ''! '')"
    if "\<not> (length (butlast word) > 1 \<and> endsWith (butlast word) BANG)"
    by (subst A) (simp add: drawWordA_plain_eq [OF that] split_beta)
  from A B C D show ?thesis by blast
qed

text \<open>
  Claim C7 says that the returned advance is the measured width of the whole word
  followed by a space. With the fixed-pitch measurement at 10 pixels, \<open>Great!\<close> followed
  by a space measures 70, and \<open>drawWord\<close> returns 80.
\<close>

theorem drawWord_exclamation_counterexample:
  "fst (drawWord sampleHost defaultConfig sampleContext ''Great!'' 0 0 10) = 80 \<and>
   width (measureText sampleHost (font sampleContext) ''Great! '') = 70 \<and>
   fst (drawWord sampleHost defaultConfig sampleContext ''Great!'' 0 0 10)
     \<noteq> width (measureText sampleHost (font sampleContext) ''Great! '')"
proof -
  have a: "fst (drawWord sampleHost defaultConfig sampleContext ''Great!'' 0 0 10) = 80"
    by code_simp
  have b: "width (measureText sampleHost (font sampleContext) ''Great! '') = 70"
    by code_simp
  from a b show ?thesis by simp
qed

theorem drawWord_exclamation_witness:
  "length ''Great!'' > 1 \<and> endsWith ''Great!'' BANG \<and>
   drawWord sampleHost defaultConfig sampleContext ''Great!'' 0 0 10 =
     (80, \<lparr>font = 10, textAlign = ''left'', fillStyle = ''#fff'',
            drawn = [DrawPngReplaceEmoji ''Great'' 0 0 10 10 ''#fff'',
                     DrawPngReplaceEmoji ''!'' 60 0 10 10 ''#fff'']\<rparr>) \<and>
   fst (drawWordA sampleHost defaultConfig sampleContext ''Great!'' 0 0) =
     width (measureText sampleHost (font sampleContext) ''Great '')
       + width (measureText sampleHost (font sampleContext) ''! '')"
proof -
  have l: "length ''Great!'' > 1" by simp
  have e: "endsWith ''Great!'' BANG" by code_simp
  have n: "\<not> (length (butlast ''Great!'') > 1 \<and> endsWith (butlast ''Great!'') BANG)"
    by code_simp
  have p: "drawWord sampleHost defaultConfig sampleContext (butlast ''Great!'') 0 0 10 =
     (60, \<lparr>font = 10, textAlign = ''left'', fillStyle = ''#fff'',
            drawn = [DrawPngReplaceEmoji ''Great'' 0 0 10 10 ''#fff'']\<rparr>)"
    by code_simp
  have m: "width (measureText sampleHost (font sampleContext) ''! '') = 20" by code_simp
  have g: "getColor sampleHost defaultConfig (Some ''!'') = ''#fff''" by code_simp
  note t = drawWord_exclamation [OF l e, of sampleHost defaultConfig sampleContext 0 0 10]
  note t1 = t [THEN conjunct1]
  note t3 = t [THEN conjunct2, THEN conjunct2, THEN mp, OF n, THEN conjunct2]
  have "drawWord sampleHost defaultConfig sampleContext ''Great!'' 0 0 10 =
     (80, \<lparr>font = 10, textAlign = ''left'', fillStyle = ''#fff'',
            drawn = [DrawPngReplaceEmoji ''Great'' 0 0 10 10 ''#fff'',
                     DrawPngReplaceEmoji ''!'' 60 0 10 10 ''#fff'']\<rparr>)"
    unfolding t1 p by (simp add: m g)
  moreover have "fst (drawWordA sampleHost defaultConfig sampleContext ''Great!'' 0 0) =
     width (measureText sampleHost (font sampleContext) ''Great '')
       + width (measureText sampleHost (font sampleContext) ''! '')"
    unfolding t3 by simp
  ultimately show ?thesis using l e by blast
qed

section \<open>The claim about colours\<close>

lemma levenshtein_common_prefix:
  assumes "\<And>c. eq c c"
  shows "levenshtein eq (p @ s) (p @ t) \<le> levenshtein eq s t"
proof (induction p)
  case Nil
  show ?case by simp
next
  case (Cons a p)
  have "levenshtein eq (a # p @ s) (a # p @ t) \<le> levenshtein eq (p @ s) (p @ t)"
    using assms by (simp add: levenshtein.simps)
  with Cons show ?case by simp
qed

lemma levenshtein_wonderfull:
  assumes "\<And>c. eq c c"
  shows "levenshtein eq ''wonderfull'' ''wonderful'' \<le> 2"
proof -
  have "levenshtein eq (''wonderful'' @ ''l'') (''wonderful'' @ '''') \<le> levenshtein eq ''l'' ''''"
    using assms by (rule levenshtein_common_prefix)
  moreover have "levenshtein eq ''l'' '''' = 1" by (simp add: levenshtein.simps)
  moreover have "''wonderful'' @ ''l'' = ''wonderfull''" and "''wonderful'' @ '''' = ''wonderful''"
    by simp_all
  ultimately show ?thesis by (simp only:)
qed

lemma matchesSpecialWord_iff:
  "matchesSpecialWord h word specialWord =
     (if length specialWord \<le> 3
      then toLowerCase h word = toLowerCase h specialWord
      else levenshtein (collatorEqual h) word specialWord \<le> 2)"
  by (auto simp: matchesSpecialWord_def)

text \<open>
  Claim C8. \<open>getColor\<close> returns the base colour for \<open>null\<close> and for the empty word. For
  any other word it returns the special colour if the word matches some configured
  special word and the base colour otherwise, where a special word of at most three
  characters matches when both lower-case to the same string and a longer one when the
  collation-aware Levenshtein distance is at most 2. In particular \<open>ok\<close> with the list
  \<open>[ok]\<close> gets the special colour, and so does \<open>wonderfull\<close> with a list that holds
  \<open>wonderful\<close> (the collator comparing every character equal to itself).
\<close>

theorem getColor_classification:
  "getColor h cfg None = baseFontColor cfg \<and>
   getColor h cfg (Some []) = baseFontColor cfg \<and>
   (word \<noteq> [] \<longrightarrow>
      getColor h cfg (Some word) =
        (if \<exists>specialWord\<in>set (specialWordList cfg).
              (if length specialWord \<le> 3
               then toLowerCase h word = toLowerCase h specialWord
               else levenshtein (collatorEqual h) word specialWord \<le> 2)
         then specialWordFontColor cfg else baseFontColor cfg)) \<and>
   (specialWordList cfg = [''ok''] \<longrightarrow>
      getColor h cfg (Some ''ok'') = specialWordFontColor cfg) \<and>
   ((\<forall>c. collatorEqual h c c) \<and> ''wonderful'' \<in> set (specialWordList cfg) \<longrightarrow>
      getColor h cfg (Some ''wonderfull'') = specialWordFontColor cfg)"
proof (intro conjI impI)
  show "getColor h cfg None = baseFontColor cfg" by (simp add: getColor_def)
  show "getColor h cfg (Some []) = baseFontColor cfg" by (simp add: getColor_def)
next
  assume "word \<noteq> []"
  then show "getColor h cfg (Some word) =
        (if \<exists>specialWord\<in>set (specialWordList cfg).
              (if length specialWord \<le> 3
               then toLowerCase h word = toLowerCase h specialWord
               else levenshtein (collatorEqual h) word specialWord \<le> 2)
         then specialWordFontColor cfg else baseFontColor cfg)"
    by (simp add: getColor_def list_ex_iff matchesSpecialWord_iff)
next
  assume "specialWordList cfg = [''ok'']"
  then show "getColor h cfg (Some ''ok'') = specialWordFontColor cfg"
    by (simp add: getColor_def matchesSpecialWord_def)
next
  assume a: "(\<forall>c. collatorEqual h c c) \<and> ''wonderful'' \<in> set (specialWordList cfg)"
  then have "levenshtein (collatorEqual h) ''wonderfull'' ''wonderful'' \<le> 2"
    by (intro levenshtein_wonderfull) simp
  then have "matchesSpecialWord h ''wonderfull'' ''wonderful''"
    by (simp add: matchesSpecialWord_def)
  with a have "list_ex (matchesSpecialWord h ''wonderfull'') (specialWordList cfg)"
    unfolding list_ex_iff by blast
  then show "getColor h cfg (Some ''wonderfull'') = specialWordFontColor cfg"
    by (simp add: getColor_def)
qed

theorem getColor_classification_witness:
  "''OK'' \<noteq> [] \<and> getColor sampleHost specialConfig (Some ''OK'') = ''#FB7417'' \<and>
   ''wonderful'' \<in> set (specialWordList specialConfig) \<and>
   getColor sampleHost specialConfig (Some ''wonderfull'') = specialWordFontColor specialConfig \<and>
   getColor sampleHost specialConfig (Some ''no'') = ''#fff'' \<and>
   specialWordList (defaultConfig\<lparr>specialWordList := [''ok'']\<rparr>) = [''ok''] \<and>
   getColor sampleHost (defaultConfig\<lparr>specialWordList := [''ok'']\<rparr>) (Some ''ok'') = ''#FB7417''"
proof -
  note t = getColor_classification [of sampleHost specialConfig]
  have r: "\<forall>c. collatorEqual sampleHost c c" by (simp add: sampleHost_def)
  have w: "''wonderful'' \<in> set (specialWordList specialConfig)" by code_simp
  have ok: "(if \<exists>specialWord\<in>set (specialWordList specialConfig).
              (if length specialWord \<le> 3
               then toLowerCase sampleHost ''OK'' = toLowerCase sampleHost specialWord
               else levenshtein (collatorEqual sampleHost) ''OK'' specialWord \<le> 2)
         then specialWordFontColor specialConfig else baseFontColor specialConfig) = ''#FB7417''"
    by code_simp
  have no: "(if \<exists>specialWord\<in>set (specialWordList specialConfig).
              (if length specialWord \<le> 3
               then toLowerCase sampleHost ''no'' = toLowerCase sampleHost specialWord
               else levenshtein (collatorEqual sampleHost) ''no'' specialWord \<le> 2)
         then specialWordFontColor specialConfig else baseFontColor specialConfig) = ''#fff''"
    by code_simp
  have l: "specialWordList (defaultConfig\<lparr>specialWordList := [''ok'']\<rparr>) = [''ok'']" by simp
  have s: "specialWordFontColor (defaultConfig\<lparr>specialWordList := [''ok'']\<rparr>) = ''#FB7417''"
    by code_simp
  have ne: "''OK'' \<noteq> []" "''no'' \<noteq> []" by simp_all
  from t [of "''OK''", THEN conjunct2, THEN conjunct2, THEN conjunct1, THEN mp, OF ne(1)]
  have 1: "getColor sampleHost specialConfig (Some ''OK'') = ''#FB7417''"
    unfolding ok .
  from t [of "''no''", THEN conjunct2, THEN conjunct2, THEN conjunct1, THEN mp, OF ne(2)]
  have 2: "getColor sampleHost specialConfig (Some ''no'') = ''#fff''"
    unfolding no .
  from t r w have 3: "getColor sampleHost specialConfig (Some ''wonderfull'') =
     specialWordFontColor specialConfig" by blast
  from getColor_classification [of sampleHost "defaultConfig\<lparr>specialWordList := [''ok'']\<rparr>"] l
  have "getColor sampleHost (defaultConfig\<lparr>specialWordList := [''ok'']\<rparr>) (Some ''ok'') =
    specialWordFontColor (defaultConfig\<lparr>specialWordList := [''ok'']\<rparr>)"
    by blast
  then have 4: "getColor sampleHost (defaultConfig\<lparr>specialWordList := [''ok'']\<rparr>) (Some ''ok'') = ''#FB7417''"
    unfolding s .
  from 1 2 3 4 w l ne show ?thesis by blast
qed

section \<open>The layout returned and what the render phase draws\<close>

















text \<open>The runaway loop on the text \<open>a\<close> ends in the \<open>catch\<close>.\<close>

lemma imageRoute_single_char: "imageRoute h cfg ''a'' = InternalServerError"
proof -
  have "splitLines ''a'' 0 = None"
    by (simp add: splitLines_def splitLoop_diverges)
  then have "dichotomyStep h cfg ''a'' \<lparr>min_d = 0, max_d = 1, maxFontSize_d = f, lines_d = ls\<rparr> = None"
    for f ls
    by (simp add: dichotomyStep_def)
  then have "imageLayout h cfg ''a'' = None"
    by (simp add: imageLayout_def getLongestLineLength_def dichotomyLoop.simps)
  then show ?thesis by (simp add: imageRoute_def)
qed

section \<open>The claims about errors\<close>















end
